theory Spec2Isabelle
  imports Main
begin

section \<open>Python string operations used by the services\<close>

text \<open>
  A Python \<open>str\<close> is modelled as a \<open>string\<close> whose characters are code points below 256.
  The functions below follow the semantics of the built-in methods the services call:
  \<open>in\<close>, \<open>startswith\<close>, \<open>replace\<close>, \<open>strip\<close>, \<open>split("\n")\<close> and \<open>"\n".join\<close>.
\<close>

definition backtick :: char where
  "backtick = CHR 0x60"

definition newline :: char where
  "newline = CHR 0x0A"

definition fence :: string where
  "fence = [backtick, backtick, backtick]"

definition fence_javascript :: string where
  "fence_javascript = fence @ ''javascript''"

definition startswith :: "string \<Rightarrow> string \<Rightarrow> bool" where
  "startswith s p = (take (length p) s = p)"

fun contains :: "string \<Rightarrow> string \<Rightarrow> bool" where
  "contains p [] = (p = [])"
| "contains p (c # cs) = (startswith (c # cs) p \<or> contains p cs)"

text \<open>
  \<open>s.replace(old, new)\<close> for a non-empty \<open>old\<close>: one pass from the left, each
  occurrence replaced and the scan resumed after it (occurrences never overlap). The
  services only call it with constant non-empty patterns; for an empty pattern the model
  returns the string unchanged.
\<close>

fun replace :: "string \<Rightarrow> string \<Rightarrow> string \<Rightarrow> string" where
  "replace old new s =
     (if old = [] \<or> s = [] then s
      else if startswith s old then new @ replace old new (drop (length old) s)
      else hd s # replace old new (tl s))"

declare replace.simps [simp del]

definition isspace :: "char \<Rightarrow> bool" where
  "isspace c = (c \<in> set [CHR 0x09, CHR 0x0A, CHR 0x0B, CHR 0x0C, CHR 0x0D,
                          CHR 0x1C, CHR 0x1D, CHR 0x1E, CHR 0x1F, CHR 0x20,
                          CHR 0x85, CHR 0xA0])"

definition lstrip :: "string \<Rightarrow> string" where
  "lstrip s = dropWhile isspace s"

definition rstrip :: "string \<Rightarrow> string" where
  "rstrip s = rev (dropWhile isspace (rev s))"

definition strip :: "string \<Rightarrow> string" where
  "strip s = rstrip (lstrip s)"

fun split_nl :: "string \<Rightarrow> string list" where
  "split_nl [] = [[]]"
| "split_nl (c # cs) =
     (if c = newline then [] # split_nl cs
      else (case split_nl cs of [] \<Rightarrow> [[c]] | l # ls \<Rightarrow> (c # l) # ls))"

fun join_nl :: "string list \<Rightarrow> string" where
  "join_nl [] = []"
| "join_nl [l] = l"
| "join_nl (l # m # ls) = l @ newline # join_nl (m # ls)"

section \<open>atlas\_service: the section parser\<close>

datatype section_id = Description | Macro_script | Explanation

definition section_name :: "section_id \<Rightarrow> string" where
  "section_name s = (case s of Description \<Rightarrow> ''description''
                     | Macro_script \<Rightarrow> ''macro_script''
                     | Explanation \<Rightarrow> ''explanation'')"

text \<open>The events the generator yields: the dictionaries with keys \<open>event\<close> and \<open>data\<close>.\<close>

datatype stream_event =
    Section_change section_id string
  | Message string section_id
  | Complete string
  | Error string

definition event_kind :: "stream_event \<Rightarrow> string" where
  "event_kind e = (case e of Section_change _ _ \<Rightarrow> ''section_change''
                    | Message _ _ \<Rightarrow> ''message''
                    | Complete _ \<Rightarrow> ''complete''
                    | Error _ \<Rightarrow> ''error'')"

definition event_data :: "stream_event \<Rightarrow> (string \<times> string) list" where
  "event_data e = (case e of
       Section_change s c \<Rightarrow> [(''section'', section_name s), (''content'', c)]
     | Message c s \<Rightarrow> [(''content'', c), (''section'', section_name s)]
     | Complete m \<Rightarrow> [(''message'', m)]
     | Error m \<Rightarrow> [(''error'', m)])"

definition handle_section_transition :: "string \<Rightarrow> section_id \<Rightarrow> bool" where
  "handle_section_transition content current_section =
     (if contains ''[DESCRIPTION]'' content then True
      else if contains fence content \<and> current_section = Description then True
      else if contains ''[EXPLANATION]'' content then True
      else False)"

definition sections :: "section_id list" where
  "sections = [Description, Macro_script, Explanation]"

fun index_of :: "'a \<Rightarrow> 'a list \<Rightarrow> nat" where
  "index_of x [] = 0"
| "index_of x (y # ys) = (if x = y then 0 else Suc (index_of x ys))"

definition get_next_section :: "section_id \<Rightarrow> section_id" where
  "get_next_section current_section =
     sections ! ((index_of current_section sections + 1) mod length sections)"

definition synthetic_comment :: string where
  "synthetic_comment = ''// Generated ImageJ Macro''"

definition clean_section_content :: "section_id \<Rightarrow> string \<Rightarrow> string" where
  "clean_section_content sec content0 =
     (let content = strip (replace ''[EXPLANATION]'' [] (replace ''[DESCRIPTION]'' [] content0))
      in if sec = Macro_script then
           (let content' = replace fence [] (replace fence_javascript [] content);
                lines = split_nl content';
                cleaned_lines = filter (\<lambda>line. strip line \<noteq> []) lines;
                cleaned_lines' =
                  (if cleaned_lines \<noteq> [] \<and> \<not> startswith (strip (hd cleaned_lines)) ''//''
                   then synthetic_comment # cleaned_lines else cleaned_lines)
            in join_nl cleaned_lines')
         else strip content)"

definition process_section_change :: "section_id \<Rightarrow> string \<Rightarrow> stream_event list" where
  "process_section_change current_section content =
     [Section_change current_section (strip (clean_section_content current_section content))]"

text \<open>
  What the completion backend delivers: opening the stream may fail; an opened stream
  delivers events, of which only the content-block deltas carry text, and then either
  ends or raises with a message.
\<close>

datatype backend_event = Content_block_delta string | Other_event

datatype backend = Open_fails string | Opened "backend_event list" "string option"

text \<open>
  The body of the \<open>async for\<close> loop of \<open>generate_macro_from_prompt\<close>: the events yielded
  for the delivered backend events, with the section and the accumulated content the
  loop ends in.
\<close>

fun consume :: "section_id \<Rightarrow> string \<Rightarrow> backend_event list \<Rightarrow> stream_event list \<times> section_id \<times> string" where
  "consume current_section section_content [] = ([], current_section, section_content)"
| "consume current_section section_content (Other_event # es) =
     consume current_section section_content es"
| "consume current_section section_content (Content_block_delta content_chunk # es) =
     (let section_content' = section_content @ content_chunk in
      if handle_section_transition content_chunk current_section then
        (case consume (get_next_section current_section) [] es of
           (evs, r) \<Rightarrow> (process_section_change current_section section_content' @ evs, r))
      else
        (case consume current_section section_content' es of
           (evs, r) \<Rightarrow> (Message content_chunk current_section # evs, r)))"

text \<open>How a generator ends: it returns, or an exception leaves it (its \<open>str\<close> is kept).\<close>

datatype gen_end = Returned | Raised string

definition http_exception_str :: "string \<Rightarrow> string" where
  "http_exception_str detail = ''500: '' @ detail"

definition generate_macro_from_prompt :: "backend \<Rightarrow> stream_event list \<times> gen_end" where
  "generate_macro_from_prompt b =
     (case b of
        Open_fails msg \<Rightarrow>
          ([Error msg], Raised (http_exception_str ''Failed to generate macro script''))
      | Opened es failure \<Rightarrow>
          (case consume Description [] es of
             (evs, current_section, section_content) \<Rightarrow>
               (case failure of
                  Some msg \<Rightarrow>
                    (Section_change Description [] # evs @ [Error msg],
                     Raised (http_exception_str ''Failed to generate macro script''))
                | None \<Rightarrow>
                    (Section_change Description [] # evs
                       @ (if section_content \<noteq> []
                          then [Section_change current_section
                                  (clean_section_content current_section (strip section_content))]
                          else [])
                       @ [Complete ''Macro generation complete''],
                     Returned))))"

text \<open>Observations on the yielded events, used to state the properties below.\<close>

fun changed_sections :: "stream_event list \<Rightarrow> section_id list" where
  "changed_sections [] = []"
| "changed_sections (Section_change s c # es) = s # changed_sections es"
| "changed_sections (e # es) = changed_sections es"


definition has_marker :: "string \<Rightarrow> bool" where
  "has_marker d = (contains ''[DESCRIPTION]'' d \<or> contains ''[EXPLANATION]'' d)"

definition is_comment_line :: "string \<Rightarrow> bool" where
  "is_comment_line l = startswith (strip l) ''//''"

text \<open>
  The lines \<open>clean_section_content\<close> keeps of a script section: the non-blank lines of the
  content once markers and fences are removed.
\<close>

definition script_lines :: "string \<Rightarrow> string list" where
  "script_lines content0 =
     filter (\<lambda>line. strip line \<noteq> [])
       (split_nl (replace fence [] (replace fence_javascript []
          (strip (replace ''[EXPLANATION]'' [] (replace ''[DESCRIPTION]'' [] content0))))))"

section \<open>chat\_routes: the stream transport\<close>

text \<open>
  \<open>format_event\<close> serialises the envelope \<open>{"event": kind, "data": payload}\<close>; the model
  keeps the two fields. The prompt-improvement backend delivers text chunks and then ends
  or raises.
\<close>

type_synonym wire_event = "string \<times> (string \<times> string) list"

definition format_event :: "string \<Rightarrow> (string \<times> string) list \<Rightarrow> wire_event" where
  "format_event event_type data = (event_type, data)"

datatype improve_backend = Improve "string list" "string option"

definition generate_improved_prompt :: "improve_backend \<Rightarrow> string list \<times> gen_end" where
  "generate_improved_prompt b =
     (case b of Improve chunks failure \<Rightarrow>
        (chunks, case failure of
                   None \<Rightarrow> Returned
                 | Some _ \<Rightarrow> Raised (http_exception_str ''Failed to generate improved prompt'')))"

definition unbound_local_error :: string where
  "unbound_local_error =
     ''cannot access local variable 'improved_chunk' where it is not associated with a value''"

text \<open>
  The forwarding loop of \<open>macro_stream\<close>. The request is modelled by the number of
  \<open>is_disconnected\<close> polls that still answer "connected" (\<open>None\<close>: the client stays). The
  flag tells whether the loop was left by \<open>break\<close>, in which case the generator is not
  resumed.
\<close>

fun forward_events :: "nat option \<Rightarrow> stream_event list \<Rightarrow> wire_event list \<times> bool" where
  "forward_events request [] = ([], False)"
| "forward_events request (e # es) =
     (if request = Some 0 then ([], True)
      else (case forward_events (map_option (\<lambda>n. n - 1) request) es of
              (ws, b) \<Rightarrow> (format_event (event_kind e) (event_data e) # ws, b)))"

definition macro_stream ::
    "nat option \<Rightarrow> string \<Rightarrow> bool \<Rightarrow> improve_backend \<Rightarrow> (string \<Rightarrow> backend) \<Rightarrow> wire_event list" where
  "macro_stream request input improve_prompt ib mb =
     (case (if improve_prompt then
              (case generate_improved_prompt ib of
                 (chunks, Raised m) \<Rightarrow>
                   (map (\<lambda>c. format_event ''improved_prompt_chunk'' [(''chunk'', c)]) chunks, Inl m)
               | (chunks, Returned) \<Rightarrow>
                   (map (\<lambda>c. format_event ''improved_prompt_chunk'' [(''chunk'', c)]) chunks
                      @ [format_event ''improved_prompt_complete''
                           [(''message'', ''Prompt improvement complete'')]],
                    if chunks = [] then Inl unbound_local_error else Inr (last chunks)))
            else ([], Inr input)) of
        (ws, Inl m) \<Rightarrow> ws @ [format_event ''error'' [(''error'', m)]]
      | (ws, Inr prompt) \<Rightarrow>
          (case generate_macro_from_prompt (mb prompt) of
             (evs, ending) \<Rightarrow>
               (case forward_events request evs of
                  (fs, True) \<Rightarrow> ws @ fs
                | (fs, False) \<Rightarrow>
                    (case ending of
                       Returned \<Rightarrow> ws @ fs
                     | Raised m \<Rightarrow> ws @ fs @ [format_event ''error'' [(''error'', m)]]))))"

section \<open>image\_service: waiting for a file\<close>

text \<open>
  \<open>ImageService._wait_for_file\<close>. The environment is what the polls observe: the k-th
  evaluation of \<open>os.path.exists\<close>, the time elapsed since the start at the k-th timeout
  check, and the k-th result of \<open>os.path.getsize\<close> (\<open>None\<close>: it raises). Times are in
  clock ticks. The existence loop has no bound of its own, so it is a partial function:
  \<open>None\<close> is a loop that never ends.
\<close>

record file_polls =
  exists_at :: "nat \<Rightarrow> bool"
  elapsed_at :: "nat \<Rightarrow> nat"
  getsize_at :: "nat \<Rightarrow> nat option"

datatype wait_error = Timeout_error | Value_error | OS_error

partial_function (option) await_exists :: "file_polls \<Rightarrow> nat \<Rightarrow> nat \<Rightarrow> bool option" where
  "await_exists env timeout k =
     (if exists_at env k then Some True
      else if elapsed_at env k > timeout then Some False
      else await_exists env timeout (Suc k))"

datatype size_check = Stable | Exhausted nat | Getsize_raises

fun check_size :: "file_polls \<Rightarrow> nat \<Rightarrow> nat \<Rightarrow> nat \<Rightarrow> size_check" where
  "check_size env 0 k file_size = Exhausted file_size"
| "check_size env (Suc rounds) k file_size =
     (case getsize_at env k of
        None \<Rightarrow> Getsize_raises
      | Some current_size \<Rightarrow>
          if current_size > 0 \<and> current_size = file_size then Stable
          else check_size env rounds (Suc k) current_size)"

definition wait_for_file :: "file_polls \<Rightarrow> nat \<Rightarrow> (wait_error + unit) option" where
  "wait_for_file env timeout =
     (case await_exists env timeout 0 of
        None \<Rightarrow> None
      | Some False \<Rightarrow> Some (Inl Timeout_error)
      | Some True \<Rightarrow>
          Some (case check_size env 10 0 0 of
                  Stable \<Rightarrow> Inr ()
                | Getsize_raises \<Rightarrow> Inl OS_error
                | Exhausted file_size \<Rightarrow> if file_size = 0 then Inl Value_error else Inr ()))"

text \<open>The sizes a run of \<open>check_size\<close> has read, for stating what it observed.\<close>

definition observed_sizes :: "file_polls \<Rightarrow> nat \<Rightarrow> nat option list" where
  "observed_sizes env n = map (getsize_at env) [0..<n]"

section \<open>Paths and the file system as the services observe it\<close>

text \<open>
  \<open>os.path.join\<close> and \<open>os.path.splitext\<close> on POSIX, for two arguments and for one
  path. \<open>rfind\<close> is \<open>str.rfind\<close> for a single character: the last index, or -1.
\<close>

definition path_join :: "string \<Rightarrow> string \<Rightarrow> string" where
  "path_join a b =
     (if startswith b ''/'' then b
      else if a = [] \<or> last a = CHR ''/'' then a @ b
      else a @ ''/'' @ b)"

fun rfind_from :: "char \<Rightarrow> string \<Rightarrow> int \<Rightarrow> int \<Rightarrow> int" where
  "rfind_from c [] i found = found"
| "rfind_from c (x # xs) i found = rfind_from c xs (i + 1) (if x = c then i else found)"

definition rfind :: "char \<Rightarrow> string \<Rightarrow> int" where
  "rfind c s = rfind_from c s 0 (- 1)"

definition splitext :: "string \<Rightarrow> string \<times> string" where
  "splitext p =
     (let sepIndex = rfind (CHR ''/'') p; dotIndex = rfind (CHR ''.'') p in
      if dotIndex > sepIndex
         \<and> list_ex (\<lambda>c. c \<noteq> CHR ''.'')
              (take (nat (dotIndex - (sepIndex + 1))) (drop (nat (sepIndex + 1)) p))
      then (take (nat dotIndex) p, drop (nat dotIndex) p)
      else (p, []))"

text \<open>
  What the library calls report about the file system at one moment. Each field is the
  result of one \<open>pathlib\<close>/\<open>os.path\<close> call as a function of its arguments:
  \<open>path_str\<close> is \<open>str(Path(p))\<close>, \<open>resolve\<close> is \<open>str(Path(p).resolve())\<close>,
  \<open>rglob d pat\<close> lists \<open>str(q)\<close> for \<open>q\<close> in \<open>Path(d).rglob(pat)\<close>,
  \<open>relative_to p d\<close> is \<open>str(Path(p).relative_to(d))\<close> (\<open>None\<close>: \<open>ValueError\<close>),
  \<open>read_text\<close> is the content of a text file and \<open>zip_open\<close> the error, if any, of
  opening an archive for writing.
\<close>

record fs =
  path_exists :: "string \<Rightarrow> bool"
  is_file :: "string \<Rightarrow> bool"
  st_size :: "string \<Rightarrow> nat"
  path_str :: "string \<Rightarrow> string"
  resolve :: "string \<Rightarrow> string"
  parent :: "string \<Rightarrow> string"
  relative_to :: "string \<Rightarrow> string \<Rightarrow> string option"
  rglob :: "string \<Rightarrow> string \<Rightarrow> string list"
  read_text :: "string \<Rightarrow> string"
  zip_open :: "string \<Rightarrow> string option"

section \<open>file\_service: collecting outputs and building the archive\<close>

text \<open>
  A Python \<open>set\<close> of strings is kept as a duplicate-free list in insertion order;
  \<open>list(files)\<close> may return any order, so the properties below speak of the elements.
\<close>

definition set_add :: "string \<Rightarrow> string list \<Rightarrow> string list" where
  "set_add x xs = (if x \<in> set xs then xs else xs @ [x])"

definition output_tag :: string where
  "output_tag = ''OUTPUT_FILE:''"

text \<open>The candidate a log line declares: the rest of the line, stripped, separators
  normalised, resolved.\<close>

definition declared_path :: "fs \<Rightarrow> string \<Rightarrow> string" where
  "declared_path env line =
     resolve env (replace ''//'' ''/'' (strip (drop (length output_tag) line)))"

fun scan_log :: "fs \<Rightarrow> string list \<Rightarrow> string list \<Rightarrow> string list" where
  "scan_log env [] files = files"
| "scan_log env (line # lines) files =
     (if startswith line output_tag then
        (let file_path = declared_path env line in
         if path_exists env file_path \<and> st_size env file_path > 0
         then scan_log env lines (set_add file_path files)
         else scan_log env lines files)
      else scan_log env lines files)"

fun scan_dir :: "fs \<Rightarrow> string list \<Rightarrow> string list \<Rightarrow> string list" where
  "scan_dir env [] files = files"
| "scan_dir env (path # paths) files =
     (if is_file env path \<and> st_size env path > 0
      then scan_dir env paths (set_add path files)
      else scan_dir env paths files)"

definition parse_saved_files :: "fs \<Rightarrow> string \<Rightarrow> string \<Rightarrow> string \<Rightarrow> string list" where
  "parse_saved_files env output temp_dir original_filename =
     (let log_file = path_join temp_dir ''output_log.txt'';
          files = (if path_exists env log_file
                   then scan_log env (split_nl (read_text env log_file)) []
                   else [])
      in scan_dir env (rglob env temp_dir (original_filename @ ''*'')) files)"

text \<open>
  The loop of \<open>_create_zip\<close>: the members written so far as pairs of path and archive
  name, and the set \<open>seen_files\<close>. \<open>Inl\<close> is an exception leaving the loop, with the
  members written before it.
\<close>

fun add_members ::
    "fs \<Rightarrow> string \<Rightarrow> string list \<Rightarrow> string list \<Rightarrow> (string \<times> string) list
       \<Rightarrow> (string \<times> string) list + (string \<times> string) list" where
  "add_members env zip_path [] seen_files members = Inr members"
| "add_members env zip_path (file_path # paths) seen_files members =
     (let path = path_str env file_path in
      if \<not> path_exists env path then add_members env zip_path paths seen_files members
      else if path \<in> set seen_files then add_members env zip_path paths seen_files members
      else (case relative_to env path (parent env zip_path) of
              None \<Rightarrow> Inl members
            | Some arcname \<Rightarrow>
                add_members env zip_path paths (set_add path seen_files)
                  (members @ [(path, arcname)])))"

text \<open>
  \<open>create_zip_file\<close> returns the archive path or \<open>None\<close>; the model also returns the
  members written to the archive. \<open>env\<close> is the file system while the members are
  collected, \<open>env'\<close> the file system once the archive is closed.
\<close>

definition create_zip_file ::
    "fs \<Rightarrow> fs \<Rightarrow> string list \<Rightarrow> string \<Rightarrow> string option \<times> (string \<times> string) list" where
  "create_zip_file env env' file_paths zip_filename =
     (if file_paths = [] then (None, [])
      else
        (let zip_path = path_str env zip_filename in
         case zip_open env zip_path of
           Some err \<Rightarrow> (None, [])
         | None \<Rightarrow>
             (case add_members env zip_path file_paths [] [] of
                Inl members \<Rightarrow> (None, members)
              | Inr members \<Rightarrow>
                  if path_exists env' zip_path then (Some zip_path, members)
                  else (None, members))))"

section \<open>imagej\_service: the batch orchestrator\<close>

text \<open>
  An upload and what the world does while its job runs: whether persisting it raises,
  whether rendering the script raises, what the engine and its log accessor return
  (\<open>Inl\<close>: they raise), and the file system the output collector then sees.
\<close>

record upload_file =
  filename :: string
  file_bytes :: string

record job_world =
  save_error :: "string option"
  prepare_error :: "string option"
  run_macro :: "string + string"
  get_log :: "string + string"
  fs_after_run :: fs

datatype failure = HTTP_exception nat string | Runtime_error string | Other_exception string

definition image_path :: "(string \<Rightarrow> string) \<Rightarrow> string \<Rightarrow> upload_file \<Rightarrow> string" where
  "image_path secure_filename temp_dir file = path_join temp_dir (secure_filename (filename file))"

text \<open>The body of the inner \<open>try\<close>: \<open>Inl\<close> is the \<open>str\<close> of the exception caught.\<close>

definition run_job :: "job_world \<Rightarrow> string \<Rightarrow> string \<Rightarrow> string + string list" where
  "run_job w temp_dir original_filename =
     (case prepare_error w of
        Some e \<Rightarrow> Inl e
      | None \<Rightarrow>
          (case run_macro w of
             Inl e \<Rightarrow> Inl e
           | Inr out1 \<Rightarrow>
               (case (if out1 \<noteq> [] then Inr out1 else get_log w) of
                  Inl e \<Rightarrow> Inl e
                | Inr output \<Rightarrow>
                    Inr (parse_saved_files (fs_after_run w) output temp_dir original_filename))))"

fun process_files ::
    "(string \<Rightarrow> string) \<Rightarrow> string \<Rightarrow> (upload_file \<times> job_world) list \<Rightarrow> string list \<Rightarrow> string list
       \<Rightarrow> string + (string list \<times> string list)" where
  "process_files secure_filename temp_dir [] error_logs output_files =
     Inr (error_logs, output_files)"
| "process_files secure_filename temp_dir ((file, w) # files) error_logs output_files =
     (let image_filename = secure_filename (filename file);
          original_filename = fst (splitext image_filename)
      in case save_error w of
           Some e \<Rightarrow> Inl e
         | None \<Rightarrow>
             (case run_job w temp_dir original_filename of
                Inr saved_files \<Rightarrow>
                  process_files secure_filename temp_dir files error_logs
                    (output_files @ saved_files)
              | Inl e \<Rightarrow>
                  process_files secure_filename temp_dir files
                    (error_logs @ [''Error processing '' @ image_filename @ '': '' @ e])
                    output_files))"

definition no_outputs :: failure where
  "no_outputs = HTTP_exception 500 ''No output files were generated.''"

definition zip_failed :: failure where
  "zip_failed = HTTP_exception 500 ''Failed to create zip file.''"

text \<open>
  \<open>execute_image_macro\<close>, from the loop on. \<open>temp_dir\<close> is the directory \<open>mkdtemp\<close>
  returned; \<open>env\<close> and \<open>env'\<close> are the file system while the archive is written and
  after it is closed.
\<close>

definition execute_image_macro ::
    "bool \<Rightarrow> (string \<Rightarrow> string) \<Rightarrow> string \<Rightarrow> fs \<Rightarrow> fs \<Rightarrow> (upload_file \<times> job_world) list
       \<Rightarrow> failure + (string \<times> string list)" where
  "execute_image_macro file_service_set secure_filename temp_dir env env' files =
     (if \<not> file_service_set then Inl (Runtime_error ''FileService is not initialized.'')
      else
        (case process_files secure_filename temp_dir files [] [] of
           Inl e \<Rightarrow> Inl (Other_exception e)
         | Inr (error_logs, output_files) \<Rightarrow>
             if output_files \<noteq> [] then
               (let zip_filename = path_join temp_dir ''results.zip'' in
                case fst (create_zip_file env env' output_files zip_filename) of
                  Some zip_path \<Rightarrow>
                    if zip_path \<noteq> [] \<and> path_exists env' zip_path
                    then Inr (zip_path, error_logs)
                    else Inl zip_failed
                | None \<Rightarrow> Inl zip_failed)
             else Inl no_outputs))"

section \<open>Observations used to state the properties\<close>






fun section_cycle :: "section_id \<Rightarrow> nat \<Rightarrow> section_id list" where
  "section_cycle cur 0 = []"
| "section_cycle cur (Suc n) = cur # section_cycle (get_next_section cur) n"


definition log_lines :: "fs \<Rightarrow> string \<Rightarrow> string list" where
  "log_lines env temp_dir =
     (let log_file = path_join temp_dir ''output_log.txt''
      in if path_exists env log_file then split_nl (read_text env log_file) else [])"

definition declared_valid :: "fs \<Rightarrow> string \<Rightarrow> string set" where
  "declared_valid env temp_dir =
     {declared_path env line | line.
        line \<in> set (log_lines env temp_dir) \<and> startswith line output_tag
        \<and> path_exists env (declared_path env line) \<and> st_size env (declared_path env line) > 0}"

definition scanned_valid :: "fs \<Rightarrow> string \<Rightarrow> string \<Rightarrow> string set" where
  "scanned_valid env temp_dir stem =
     {p \<in> set (rglob env temp_dir (stem @ ''*'')). is_file env p \<and> st_size env p > 0}"

definition members_of :: "(string \<times> string) list + (string \<times> string) list \<Rightarrow> (string \<times> string) list" where
  "members_of r = (case r of Inl m \<Rightarrow> m | Inr m \<Rightarrow> m)"

definition error_events :: "wire_event list \<Rightarrow> wire_event list" where
  "error_events ws = filter (\<lambda>w. fst w = ''error'') ws"

section \<open>Example inputs\<close>






definition basename :: "string \<Rightarrow> string" where
  "basename p = rev (takeWhile (\<lambda>c. c \<noteq> CHR ''/'') (rev p))"

definition dirname :: "string \<Rightarrow> string" where
  "dirname p = rev (drop 1 (dropWhile (\<lambda>c. c \<noteq> CHR ''/'') (rev p)))"

definition listing_fs :: "(string \<times> nat) list \<Rightarrow> (string \<times> string) list \<Rightarrow> fs" where
  "listing_fs files texts =
     \<lparr> path_exists = (\<lambda>p. p \<in> set (map fst files)),
       is_file = (\<lambda>p. p \<in> set (map fst files)),
       st_size = (\<lambda>p. case map_of files p of Some n \<Rightarrow> n | None \<Rightarrow> 0),
       path_str = (\<lambda>p. p),
       resolve = (\<lambda>p. p),
       parent = dirname,
       relative_to = (\<lambda>p d. if startswith p (d @ ''/'')
                              then Some (drop (length d + 1) p) else None),
       rglob = (\<lambda>d pat. filter (\<lambda>p. startswith p (d @ ''/'')
                                      \<and> startswith (basename p) (butlast pat))
                          (map fst files)),
       read_text = (\<lambda>p. case map_of texts p of Some t \<Rightarrow> t | None \<Rightarrow> []),
       zip_open = (\<lambda>p. None) \<rparr>"

definition demo_fs :: fs where
  "demo_fs = listing_fs
     [(''/tmp/w/a.png'', 10), (''/tmp/w/Images/a_mask.tif'', 20),
      (''/tmp/w/Statistics/a_stats.csv'', 0), (''/tmp/w/output_log.txt'', 30)]
     [(''/tmp/w/output_log.txt'',
       ''OUTPUT_FILE:/tmp/w//Images/a_mask.tif'' @ [newline]
         @ ''OUTPUT_FILE:/tmp/w/missing.csv'' @ [newline])]"

definition unprivate :: "string \<Rightarrow> string" where
  "unprivate p = (if startswith p ''/private/var/'' then drop 8 p else p)"

definition symlink_fs :: fs where
  "symlink_fs =
     (let base = listing_fs
            [(''/var/T/w/a.png'', 10), (''/var/T/w/a_out.csv'', 20),
             (''/var/T/w/output_log.txt'', 30)]
            [(''/var/T/w/output_log.txt'', ''OUTPUT_FILE:/var/T/w/a_out.csv'' @ [newline])]
      in base \<lparr> path_exists := (\<lambda>p. path_exists base (unprivate p)),
                is_file := (\<lambda>p. is_file base (unprivate p)),
                st_size := (\<lambda>p. st_size base (unprivate p)),
                resolve := (\<lambda>p. if startswith p ''/var/'' then ''/private'' @ p else p) \<rparr>)"

definition demo_fs' :: fs where
  "demo_fs' = listing_fs
     [(''/tmp/w/a.png'', 10), (''/tmp/w/Images/a_mask.tif'', 20),
      (''/tmp/w/Statistics/a_stats.csv'', 0), (''/tmp/w/output_log.txt'', 30),
      (''/tmp/w/results.zip'', 400)] []"

definition quiet_job :: "fs \<Rightarrow> job_world" where
  "quiet_job env = \<lparr> save_error = None, prepare_error = None, run_macro = Inr ''done'',
                      get_log = Inr [], fs_after_run = env \<rparr>"

definition upload :: "string \<Rightarrow> string \<Rightarrow> upload_file" where
  "upload name bytes = \<lparr> filename = name, file_bytes = bytes \<rparr>"

definition outside_fs :: fs where
  "outside_fs = listing_fs
     [(''/tmp/w/a.png'', 10), (''/data/a_out.csv'', 5), (''/tmp/w/output_log.txt'', 28),
      (''/tmp/w/results.zip'', 120)]
     [(''/tmp/w/output_log.txt'', ''OUTPUT_FILE:/data/a_out.csv'' @ [newline])]"

definition batch_fs :: fs where
  "batch_fs = listing_fs
     [(''/tmp/w/a.png'', 10), (''/tmp/w/Images/a_mask.tif'', 20),
      (''/tmp/w/b.png'', 11), (''/tmp/w/c.png'', 12), (''/tmp/w/Images/c_mask.tif'', 22),
      (''/tmp/w/results.zip'', 400)] []"

definition save_fails_batch :: "(upload_file \<times> job_world) list" where
  "save_fails_batch =
     [(upload ''a.png'' ''A'', quiet_job batch_fs),
      (upload ''b.png'' ''B'', (quiet_job batch_fs) \<lparr> save_error := Some ''No space left on device'' \<rparr>),
      (upload ''c.png'' ''C'', quiet_job batch_fs)]"

definition engine_fails_batch :: "(upload_file \<times> job_world) list" where
  "engine_fails_batch =
     [(upload ''a.png'' ''A'', quiet_job batch_fs),
      (upload ''b.png'' ''B'', (quiet_job batch_fs) \<lparr> run_macro := Inl ''Macro Error'' \<rparr>),
      (upload ''c.png'' ''C'', quiet_job batch_fs)]"

definition growing_file :: file_polls where
  "growing_file = \<lparr> exists_at = (\<lambda>k. True), elapsed_at = (\<lambda>k. k),
                     getsize_at = (\<lambda>k. Some (Suc k)) \<rparr>"

definition alias_fs :: fs where
  "alias_fs =
     (listing_fs [(''/tmp/w/a.png'', 10), (''/tmp/w/Images/../a.png'', 10),
                  (''/tmp/w/results.zip'', 300)] [])
       \<lparr> resolve := (\<lambda>p. if p = ''/tmp/w/Images/../a.png'' then ''/tmp/w/a.png'' else p) \<rparr>"

section \<open>Properties\<close>

subsection \<open>String operations\<close>

lemma startswith_Nil [simp]: "startswith s []"
  by (simp add: startswith_def)

lemma startswith_Nil_Cons [simp]: "\<not> startswith [] (p # ps)"
  by (simp add: startswith_def)

lemma startswith_Cons_Cons [simp]: "startswith (c # cs) (p # ps) \<longleftrightarrow> c = p \<and> startswith cs ps"
  by (auto simp: startswith_def)

lemma startswith_iff: "startswith s p \<longleftrightarrow> (\<exists>b. s = p @ b)"
proof (induction p arbitrary: s)
  case Nil
  then show ?case by simp
next
  case (Cons x p)
  then show ?case by (cases s) auto
qed

lemma contains_Nil_left [simp]: "contains [] s"
  by (cases s) simp_all

lemma contains_iff: "contains p s \<longleftrightarrow> (\<exists>a b. s = a @ p @ b)"
proof (induction s)
  case Nil
  then show ?case by auto
next
  case (Cons c cs)
  show ?case
  proof
    assume "contains p (c # cs)"
    then consider "startswith (c # cs) p" | "contains p cs" by auto
    then show "\<exists>a b. c # cs = a @ p @ b"
    proof cases
      case 1
      then obtain b where "c # cs = [] @ p @ b" by (auto simp: startswith_iff)
      then show ?thesis by blast
    next
      case 2
      with Cons.IH obtain a b where "cs = a @ p @ b" by blast
      then have "c # cs = (c # a) @ p @ b" by simp
      then show ?thesis by blast
    qed
  next
    assume "\<exists>a b. c # cs = a @ p @ b"
    then obtain a b where ab: "c # cs = a @ p @ b" by blast
    show "contains p (c # cs)"
    proof (cases a)
      case Nil
      with ab have "startswith (c # cs) p" by (simp add: startswith_iff)
      then show ?thesis by simp
    next
      case (Cons x a')
      with ab have "cs = a' @ p @ b" by simp
      with Cons.IH have "contains p cs" by blast
      then show ?thesis by simp
    qed
  qed
qed

lemma replace_Nil [simp]: "replace old new [] = []"
  by (simp add: replace.simps)

lemma replace_match: "old \<noteq> [] \<Longrightarrow> s \<noteq> [] \<Longrightarrow> startswith s old \<Longrightarrow>
  replace old new s = new @ replace old new (drop (length old) s)"
  by (subst replace.simps) simp

lemma replace_skip: "old \<noteq> [] \<Longrightarrow> \<not> startswith (c # cs) old \<Longrightarrow>
  replace old new (c # cs) = c # replace old new cs"
  by (subst replace.simps) simp

lemma replace_fence_hit:
  "startswith (c # cs) fence \<Longrightarrow> replace fence [] (c # cs) = replace fence [] (drop 2 cs)"
  by (subst replace.simps) (simp add: fence_def numeral_2_eq_2)

lemma replace_fence_miss:
  "\<not> startswith (c # cs) fence \<Longrightarrow> replace fence [] (c # cs) = c # replace fence [] cs"
  by (subst replace.simps) (auto simp: fence_def)

lemma replace_fence_first:
  assumes a: "startswith (replace fence [] s) [backtick]"
  shows "startswith s [backtick]"
proof (cases s)
  case Nil
  with a show ?thesis by simp
next
  case (Cons c cs)
  show ?thesis
  proof (cases "startswith s fence")
    case True
    then show ?thesis by (simp add: fence_def Cons)
  next
    case False
    with Cons a show ?thesis by (simp add: replace_fence_miss)
  qed
qed

lemma replace_fence_second:
  "startswith (replace fence [] s) [backtick, backtick] \<Longrightarrow> startswith s [backtick, backtick]"
proof (induction s rule: length_induct)
  case (1 s)
  show ?case
  proof (cases s)
    case Nil
    with 1 show ?thesis by simp
  next
    case (Cons c cs)
    show ?thesis
    proof (cases "startswith s fence")
      case True
      then show ?thesis by (cases cs) (auto simp: fence_def Cons)
    next
      case False
      with Cons have eq: "replace fence [] s = c # replace fence [] cs"
        by (simp add: replace_fence_miss)
      with 1(2) have "c = backtick" and "startswith (replace fence [] cs) [backtick]"
        by auto
      with replace_fence_first have "startswith cs [backtick]" by blast
      with \<open>c = backtick\<close> show ?thesis by (simp add: Cons)
    qed
  qed
qed

lemma replace_fence_no_fence: "\<not> contains fence (replace fence [] s)"
proof (induction s rule: length_induct)
  case (1 s)
  show ?case
  proof (cases s)
    case Nil
    then show ?thesis by (simp add: fence_def)
  next
    case (Cons c cs)
    show ?thesis
    proof (cases "startswith s fence")
      case True
      then have "replace fence [] s = replace fence [] (drop 2 cs)"
        using Cons by (simp add: replace_fence_hit)
      moreover have "length (drop 2 cs) < length s"
        using Cons by simp
      ultimately show ?thesis using 1 by simp
    next
      case False
      with Cons have eq: "replace fence [] s = c # replace fence [] cs"
        by (simp add: replace_fence_miss)
      have ih: "\<not> contains fence (replace fence [] cs)" using 1 Cons by simp
      have "\<not> startswith (c # replace fence [] cs) fence"
      proof
        assume a: "startswith (c # replace fence [] cs) fence"
        then have "c = backtick" and "startswith (replace fence [] cs) [backtick, backtick]"
          by (auto simp: fence_def)
        with replace_fence_second have "startswith cs [backtick, backtick]" by blast
        with \<open>c = backtick\<close> have "startswith s fence"
          by (simp add: fence_def Cons)
        with False show False by simp
      qed
      with ih eq show ?thesis by simp
    qed
  qed
qed

lemma startswith_append_sep:
  assumes "sep \<notin> set p"
  shows "startswith (x @ sep # b) p \<longleftrightarrow> startswith x p"
  using assms
proof (induction x arbitrary: p)
  case Nil
  then show ?case by (cases p) auto
next
  case (Cons c x)
  then show ?case by (cases p) auto
qed

lemma contains_append_sep:
  assumes "sep \<notin> set p" "p \<noteq> []"
  shows "contains p (a @ sep # b) \<longleftrightarrow> contains p a \<or> contains p b"
proof (induction a)
  case Nil
  have "\<not> startswith (sep # b) p" using assms by (cases p) auto
  then show ?case using assms(2) by simp
next
  case (Cons c a)
  have "startswith ((c # a) @ sep # b) p \<longleftrightarrow> startswith (c # a) p"
    by (rule startswith_append_sep[OF assms(1)])
  then show ?case using Cons by auto
qed

lemma contains_join_nl:
  assumes "newline \<notin> set p" "p \<noteq> []"
  shows "contains p (join_nl ls) \<longleftrightarrow> (\<exists>l \<in> set ls. contains p l)"
proof (induction ls rule: join_nl.induct)
  case 1
  then show ?case using assms by simp
next
  case (2 l)
  then show ?case by simp
next
  case (3 l m ls)
  then show ?case using contains_append_sep[OF assms] by auto
qed

lemma split_nl_ne [simp]: "split_nl s \<noteq> []"
  by (induction s) (auto split: list.splits)

lemma join_nl_Cons: "ls \<noteq> [] \<Longrightarrow> join_nl (l # ls) = l @ newline # join_nl ls"
  by (cases ls) auto

lemma join_nl_split_nl: "join_nl (split_nl s) = s"
proof (induction s)
  case Nil
  then show ?case by simp
next
  case (Cons c cs)
  show ?case
  proof (cases "c = newline")
    case True
    then show ?thesis using Cons by (simp add: join_nl_Cons)
  next
    case False
    obtain l ls where sp: "split_nl cs = l # ls" by (cases "split_nl cs") auto
    with Cons have "join_nl (l # ls) = cs" by simp
    moreover have "join_nl ((c # l) # ls) = c # join_nl (l # ls)" by (cases ls) auto
    ultimately show ?thesis using False sp by simp
  qed
qed

lemma split_nl_no_newline: "l \<in> set (split_nl s) \<Longrightarrow> newline \<notin> set l"
proof (induction s arbitrary: l)
  case Nil
  then show ?case by simp
next
  case (Cons c cs)
  then show ?case by (cases "split_nl cs") (auto split: if_splits)
qed

lemma split_nl_line: "newline \<notin> set l \<Longrightarrow> split_nl l = [l]"
  by (induction l) auto

lemma split_nl_append_sep:
  "newline \<notin> set l \<Longrightarrow> split_nl (l @ newline # s) = l # split_nl s"
  by (induction l) auto

lemma split_nl_join_nl:
  "ls \<noteq> [] \<Longrightarrow> (\<forall>l \<in> set ls. newline \<notin> set l) \<Longrightarrow> split_nl (join_nl ls) = ls"
proof (induction ls rule: join_nl.induct)
  case 1
  then show ?case by simp
next
  case (2 l)
  then show ?case by (simp add: split_nl_line)
next
  case (3 l m ls)
  then show ?case by (simp add: split_nl_append_sep)
qed

lemma join_nl_eq_Nil: "(\<forall>l \<in> set ls. l \<noteq> []) \<Longrightarrow> join_nl ls = [] \<longleftrightarrow> ls = []"
  by (induction ls rule: join_nl.induct) auto

lemma strip_Nil [simp]: "strip [] = []"
  by (simp add: strip_def lstrip_def rstrip_def)

lemma synthetic_comment_facts:
  "is_comment_line synthetic_comment" "strip synthetic_comment \<noteq> []"
  "newline \<notin> set synthetic_comment" "\<not> contains fence synthetic_comment"
  by (simp_all add: is_comment_line_def synthetic_comment_def strip_def lstrip_def rstrip_def
        isspace_def newline_def fence_def backtick_def)

lemma clean_script_eq:
  "clean_section_content Macro_script content =
     join_nl (if script_lines content \<noteq> [] \<and> \<not> is_comment_line (hd (script_lines content))
              then synthetic_comment # script_lines content else script_lines content)"
  by (simp add: clean_section_content_def script_lines_def is_comment_line_def Let_def)

lemma script_lines_facts:
  assumes "l \<in> set (script_lines content)"
  shows "strip l \<noteq> []" "l \<noteq> []" "newline \<notin> set l" "\<not> contains fence l"
proof -
  let ?body = "replace fence [] (replace fence_javascript []
          (strip (replace ''[EXPLANATION]'' [] (replace ''[DESCRIPTION]'' [] content))))"
  from assms have l: "l \<in> set (split_nl ?body)" and s: "strip l \<noteq> []"
    by (simp_all add: script_lines_def)
  show "strip l \<noteq> []" by (rule s)
  from s show "l \<noteq> []" by auto
  from l show "newline \<notin> set l" by (rule split_nl_no_newline)
  have nf: "newline \<notin> set fence" "fence \<noteq> []"
    by (simp_all add: fence_def newline_def backtick_def)
  show "\<not> contains fence l"
  proof
    assume "contains fence l"
    with l have "contains fence (join_nl (split_nl ?body))"
      using contains_join_nl[OF nf] by blast
    then show False by (simp add: join_nl_split_nl replace_fence_no_fence)
  qed
qed

lemma contains_prefix: "contains (p @ q) s \<Longrightarrow> contains p s"
  unfolding contains_iff by (metis append.assoc)

subsection \<open>Cleaning a script section (C8)\<close>

text \<open>
  C8. For every content, the cleaned script content contains no code fence, neither the
  plain one nor the one tagged \<open>javascript\<close>; it is empty exactly when no non-blank line
  remains; its lines are the remaining non-blank lines, preceded by the synthetic comment
  exactly when the first of them, stripped, does not start with \<open>//\<close>; so a non-empty
  result starts with a comment line and has no blank line.
\<close>

theorem clean_script_content:
  "(let r = clean_section_content Macro_script content; body = script_lines content in
     \<not> contains fence r \<and> \<not> contains fence_javascript r
     \<and> (r = [] \<longleftrightarrow> body = [])
     \<and> (body \<noteq> [] \<longrightarrow>
          split_nl r = (if is_comment_line (hd body) then body else synthetic_comment # body))
     \<and> (r \<noteq> [] \<longrightarrow> is_comment_line (hd (split_nl r)))
     \<and> (r \<noteq> [] \<longrightarrow> (\<forall>l \<in> set (split_nl r). strip l \<noteq> [])))"
proof -
  define body where "body = script_lines content"
  define ls where "ls = (if body \<noteq> [] \<and> \<not> is_comment_line (hd body)
                         then synthetic_comment # body else body)"
  define r where "r = clean_section_content Macro_script content"
  have r: "r = join_nl ls" by (simp add: r_def ls_def body_def clean_script_eq)
  have ls_set: "set ls \<subseteq> insert synthetic_comment (set body)" by (auto simp: ls_def)
  have ok: "strip l \<noteq> [] \<and> l \<noteq> [] \<and> newline \<notin> set l \<and> \<not> contains fence l" if "l \<in> set ls" for l
  proof -
    from that ls_set consider "l = synthetic_comment" | "l \<in> set (script_lines content)"
      by (auto simp: body_def)
    then show ?thesis
    proof cases
      case 1
      then show ?thesis using synthetic_comment_facts by auto
    next
      case 2
      then show ?thesis using script_lines_facts[of l content] by simp
    qed
  qed
  have nf: "newline \<notin> set fence" "fence \<noteq> []"
    by (simp_all add: fence_def newline_def backtick_def)
  have c1: "\<not> contains fence r" using ok by (simp add: r contains_join_nl[OF nf])
  have c2: "\<not> contains fence_javascript r"
    using c1 contains_prefix[of fence "''javascript''" r] by (auto simp: fence_javascript_def)
  have ls_nil: "ls = [] \<longleftrightarrow> body = []" by (simp add: ls_def)
  have c3: "r = [] \<longleftrightarrow> body = []" using ok join_nl_eq_Nil[of ls] ls_nil by (simp add: r)
  have sp: "split_nl r = ls" if "body \<noteq> []"
    using that ok ls_nil by (simp add: r split_nl_join_nl)
  have c4: "body \<noteq> [] \<longrightarrow> split_nl r = (if is_comment_line (hd body) then body else synthetic_comment # body)"
    using sp by (simp add: ls_def)
  have c5: "r \<noteq> [] \<longrightarrow> is_comment_line (hd (split_nl r))"
    using sp c3 synthetic_comment_facts(1) by (auto simp: ls_def)
  have c6: "r \<noteq> [] \<longrightarrow> (\<forall>l \<in> set (split_nl r). strip l \<noteq> [])"
    using sp c3 ok by auto
  show ?thesis
    unfolding Let_def using c1 c2 c3 c4 c5 c6 by (simp add: r_def body_def)
qed

text \<open>A fenced one-line script: the fences go and the synthetic comment is prepended.\<close>

theorem clean_script_content_witness:
  "clean_section_content Macro_script (fence_javascript @ newline # ''run(1);'' @ newline # fence)
     = ''// Generated ImageJ Macro'' @ newline # ''run(1);''
   \<and> \<not> contains fence
        (clean_section_content Macro_script (fence_javascript @ newline # ''run(1);'' @ newline # fence))
   \<and> is_comment_line (hd (split_nl
        (clean_section_content Macro_script (fence_javascript @ newline # ''run(1);'' @ newline # fence))))"
proof -
  have e: "clean_section_content Macro_script (fence_javascript @ newline # ''run(1);'' @ newline # fence)
     = ''// Generated ImageJ Macro'' @ newline # ''run(1);''"
    by code_simp
  have ne: "''// Generated ImageJ Macro'' @ newline # ''run(1);'' \<noteq> []" by simp
  have t: "\<not> contains fence (''// Generated ImageJ Macro'' @ newline # ''run(1);'')
           \<and> (''// Generated ImageJ Macro'' @ newline # ''run(1);'' \<noteq> [] \<longrightarrow>
                is_comment_line (hd (split_nl (''// Generated ImageJ Macro'' @ newline # ''run(1);''))))"
    using clean_script_content[of "fence_javascript @ newline # ''run(1);'' @ newline # fence"]
    unfolding Let_def e by blast
  show ?thesis unfolding e using t ne by blast
qed

subsection \<open>The section parser (C3, C10)\<close>

lemma get_next_section_simps [simp]:
  "get_next_section Description = Macro_script"
  "get_next_section Macro_script = Explanation"
  "get_next_section Explanation = Description"
  by (simp_all add: get_next_section_def sections_def)

lemma consume_messages:
  "(\<forall>d \<in> set ds. \<not> handle_section_transition d cur) \<Longrightarrow>
   consume cur acc (map Content_block_delta ds @ rest) =
     (case consume cur (acc @ concat ds) rest of
        (evs, r) \<Rightarrow> (map (\<lambda>d. Message d cur) ds @ evs, r))"
proof (induction ds arbitrary: acc)
  case Nil
  then show ?case by (simp split: prod.splits)
next
  case (Cons d ds)
  then show ?case by (simp add: Let_def split: prod.splits)
qed

lemma consume_transition:
  "handle_section_transition d cur \<Longrightarrow>
   consume cur acc (Content_block_delta d # rest) =
     (case consume (get_next_section cur) [] rest of
        (evs, r) \<Rightarrow> (Section_change cur (strip (clean_section_content cur (acc @ d))) # evs, r))"
  by (simp add: Let_def process_section_change_def split: prod.splits)

lemma changed_sections_append [simp]:
  "changed_sections (xs @ ys) = changed_sections xs @ changed_sections ys"
  by (induction xs rule: changed_sections.induct) auto

lemma changed_sections_messages [simp]:
  "changed_sections (map (\<lambda>d. Message d cur) ds) = []"
  by (induction ds) auto

text \<open>
  A stream of deltas with two triggering deltas, in full: when the deltas before the
  first trigger (a marker or a fence) carry neither marker nor fence and no delta but the
  second trigger carries a marker afterwards, the generator yields the initial
  \<open>section_change\<close>, then a \<open>section_change\<close> for description and macro\_script with
  the cleaned content accumulated for each, the deltas in between as messages, a last
  \<open>section_change\<close> for the explanation if content is accumulated for it, and
  \<open>complete\<close>.
\<close>

lemma two_trigger_stream:
  assumes pre: "\<forall>d \<in> set pre. \<not> has_marker d \<and> \<not> contains fence d"
    and dD: "has_marker dD \<or> contains fence dD"
    and mid: "\<forall>d \<in> set mid. \<not> has_marker d"
    and dE: "has_marker dE"
    and post: "\<forall>d \<in> set post. \<not> has_marker d"
  shows "generate_macro_from_prompt
           (Opened (map Content_block_delta (pre @ dD # mid @ dE # post)) None) =
         (Section_change Description []
            # map (\<lambda>d. Message d Description) pre
            @ Section_change Description
                (strip (clean_section_content Description (concat pre @ dD)))
            # map (\<lambda>d. Message d Macro_script) mid
            @ Section_change Macro_script
                (strip (clean_section_content Macro_script (concat mid @ dE)))
            # map (\<lambda>d. Message d Explanation) post
            @ (if concat post \<noteq> []
               then [Section_change Explanation
                       (clean_section_content Explanation (strip (concat post)))]
               else [])
            @ [Complete ''Macro generation complete''],
          Returned)"
proof -
  have t1: "\<forall>d \<in> set pre. \<not> handle_section_transition d Description"
    using pre by (auto simp: handle_section_transition_def has_marker_def)
  have t2: "handle_section_transition dD Description"
    using dD by (auto simp: handle_section_transition_def has_marker_def)
  have t3: "\<forall>d \<in> set mid. \<not> handle_section_transition d Macro_script"
    using mid by (auto simp: handle_section_transition_def has_marker_def)
  have t4: "handle_section_transition dE Macro_script"
    using dE by (auto simp: handle_section_transition_def has_marker_def)
  have t5: "\<forall>d \<in> set post. \<not> handle_section_transition d Explanation"
    using post by (auto simp: handle_section_transition_def has_marker_def)
  have c3: "consume Explanation [] (map Content_block_delta post) =
              (map (\<lambda>d. Message d Explanation) post, Explanation, concat post)"
    using consume_messages[OF t5, of "[]" "[]"] by simp
  have c2: "consume Macro_script [] (map Content_block_delta (mid @ dE # post)) =
              (map (\<lambda>d. Message d Macro_script) mid
               @ Section_change Macro_script
                   (strip (clean_section_content Macro_script (concat mid @ dE)))
               # map (\<lambda>d. Message d Explanation) post, Explanation, concat post)"
    using consume_messages[OF t3, of "[]" "Content_block_delta dE # map Content_block_delta post"]
      consume_transition[OF t4, of "concat mid" "map Content_block_delta post"] c3
    by simp
  have c1: "consume Description [] (map Content_block_delta (pre @ dD # mid @ dE # post)) =
              (map (\<lambda>d. Message d Description) pre
               @ Section_change Description
                   (strip (clean_section_content Description (concat pre @ dD)))
               # map (\<lambda>d. Message d Macro_script) mid
               @ Section_change Macro_script
                   (strip (clean_section_content Macro_script (concat mid @ dE)))
               # map (\<lambda>d. Message d Explanation) post, Explanation, concat post)"
    using consume_messages[OF t1, of "[]"
        "Content_block_delta dD # map Content_block_delta (mid @ dE # post)"]
      consume_transition[OF t2, of "concat pre" "map Content_block_delta (mid @ dE # post)"] c2
    by simp
  show ?thesis
    unfolding generate_macro_from_prompt_def backend.case c1 prod.case option.case
    by simp
qed







lemma length_section_cycle [simp]: "length (section_cycle cur n) = n"
  by (induction n arbitrary: cur) auto







text \<open>
  For every stream that ends without failure: after the events of the loop comes the
  \<open>section_change\<close> for the content still accumulated, if there is any, and then
  \<open>complete\<close>.
\<close>

lemma last_section_then_complete:
  assumes "consume Description [] es = (body, cur, acc)"
  shows "generate_macro_from_prompt (Opened es None) =
           (Section_change Description [] # body
              @ (if acc \<noteq> []
                 then [Section_change cur (clean_section_content cur (strip acc))] else [])
              @ [Complete ''Macro generation complete''],
            Returned)"
  using assms by (simp add: generate_macro_from_prompt_def)

text \<open>
  C10. Once the stream is open the first event yielded is a \<open>section_change\<close> for the
  description with empty content, whatever the backend delivers afterwards; a generation
  that ends without failure starts with it and ends with \<open>complete\<close>.
\<close>

theorem initial_section_change:
  "(\<exists>rest. fst (generate_macro_from_prompt (Opened es failure))
             = Section_change Description [] # rest)
   \<and> (\<exists>rest. generate_macro_from_prompt (Opened es None)
             = (Section_change Description [] # rest @ [Complete ''Macro generation complete''],
                Returned))"
  by (auto simp: generate_macro_from_prompt_def split: prod.splits option.splits)

text \<open>A stream of one delta.\<close>

theorem initial_section_change_witness:
  "(\<exists>rest. fst (generate_macro_from_prompt (Opened [Content_block_delta ''Hi''] None))
             = Section_change Description [] # rest)
   \<and> fst (generate_macro_from_prompt (Opened [Content_block_delta ''Hi''] None))
       = [Section_change Description [], Message ''Hi'' Description,
          Section_change Description ''Hi'', Complete ''Macro generation complete'']"
proof -
  have e: "fst (generate_macro_from_prompt (Opened [Content_block_delta ''Hi''] None))
       = [Section_change Description [], Message ''Hi'' Description,
          Section_change Description ''Hi'', Complete ''Macro generation complete'']"
    by code_simp
  from initial_section_change[of "[Content_block_delta ''Hi'']" None]
  have "\<exists>rest. fst (generate_macro_from_prompt (Opened [Content_block_delta ''Hi''] None))
             = Section_change Description [] # rest"
    by blast
  with e show ?thesis by blast
qed

text \<open>When opening the stream raises, the error event is all the generator yields.\<close>

lemma open_failure_only_error:
  "generate_macro_from_prompt (Open_fails m)
     = ([Error m], Raised (http_exception_str ''Failed to generate macro script''))"
  by (simp add: generate_macro_from_prompt_def)

subsection \<open>Upstream failure (C4)\<close>

text \<open>
  C4. The backend delivers one delta and then raises. The generator yields an error
  event and then raises; the transport forwards the first and turns the exception into a
  second error event, so the client sees two.
\<close>

theorem upstream_failure_two_errors:
  "macro_stream None ''blur'' False (Improve [] None)
     (\<lambda>prompt. Opened [Content_block_delta ''Hi''] (Some ''overloaded''))
   = [(''section_change'', [(''section'', ''description''), (''content'', [])]),
      (''message'', [(''content'', ''Hi''), (''section'', ''description'')]),
      (''error'', [(''error'', ''overloaded'')]),
      (''error'', [(''error'', ''500: Failed to generate macro script'')])]
   \<and> length (error_events (macro_stream None ''blur'' False (Improve [] None)
        (\<lambda>prompt. Opened [Content_block_delta ''Hi''] (Some ''overloaded'')))) = 2"
  by code_simp

subsection \<open>Collecting outputs (C5)\<close>

lemma set_set_add [simp]: "set (set_add x xs) = insert x (set xs)"
  by (auto simp: set_add_def)

lemma distinct_set_add [simp]: "distinct xs \<Longrightarrow> distinct (set_add x xs)"
  by (auto simp: set_add_def)

lemma scan_log_set:
  "set (scan_log env lines files) =
     set files \<union> {declared_path env line | line.
        line \<in> set lines \<and> startswith line output_tag
        \<and> path_exists env (declared_path env line) \<and> st_size env (declared_path env line) > 0}"
  by (induction lines arbitrary: files) (auto simp: Let_def)

lemma scan_log_distinct: "distinct files \<Longrightarrow> distinct (scan_log env lines files)"
  by (induction lines arbitrary: files) (auto simp: Let_def)

lemma scan_dir_set:
  "set (scan_dir env paths files) =
     set files \<union> {p \<in> set paths. is_file env p \<and> st_size env p > 0}"
  by (induction paths arbitrary: files) auto

lemma scan_dir_distinct: "distinct files \<Longrightarrow> distinct (scan_dir env paths files)"
  by (induction paths arbitrary: files) auto

lemma parse_saved_files_set:
  "set (parse_saved_files env output temp_dir stem) =
     declared_valid env temp_dir \<union> scanned_valid env temp_dir stem"
  by (auto simp: parse_saved_files_def declared_valid_def scanned_valid_def log_lines_def
        Let_def scan_dir_set scan_log_set)

lemma parse_saved_files_distinct: "distinct (parse_saved_files env output temp_dir stem)"
  by (simp add: parse_saved_files_def Let_def scan_dir_distinct scan_log_distinct)

text \<open>
  What holds of every call: the result holds exactly the declared candidates and the
  scanned candidates that pass their check, each string once; when every file exists,
  each entry exists and has non-zero size; and no two entries name the same canonical
  path provided the scan's paths are canonical already.
\<close>

theorem parse_saved_files_union:
  "set (parse_saved_files env output temp_dir stem) =
       declared_valid env temp_dir \<union> scanned_valid env temp_dir stem
   \<and> distinct (parse_saved_files env output temp_dir stem)
   \<and> ((\<forall>p. is_file env p \<longrightarrow> path_exists env p) \<longrightarrow>
        (\<forall>p \<in> set (parse_saved_files env output temp_dir stem).
           path_exists env p \<and> st_size env p > 0))
   \<and> ((\<forall>x. resolve env (resolve env x) = resolve env x)
        \<and> (\<forall>p \<in> set (rglob env temp_dir (stem @ ''*'')). resolve env p = p) \<longrightarrow>
        (\<forall>p \<in> set (parse_saved_files env output temp_dir stem).
         \<forall>q \<in> set (parse_saved_files env output temp_dir stem).
           resolve env p = resolve env q \<longrightarrow> p = q))"
proof -
  let ?r = "parse_saved_files env output temp_dir stem"
  have s: "set ?r = declared_valid env temp_dir \<union> scanned_valid env temp_dir stem"
    by (rule parse_saved_files_set)
  have v: "\<forall>p \<in> set ?r. path_exists env p \<and> st_size env p > 0"
    if "\<forall>p. is_file env p \<longrightarrow> path_exists env p"
    using that unfolding s by (auto simp: declared_valid_def scanned_valid_def)
  have c: "\<forall>p \<in> set ?r. \<forall>q \<in> set ?r. resolve env p = resolve env q \<longrightarrow> p = q"
    if idem: "\<forall>x. resolve env (resolve env x) = resolve env x"
      and fixed: "\<forall>p \<in> set (rglob env temp_dir (stem @ ''*'')). resolve env p = p"
  proof -
    have "resolve env p = p" if "p \<in> set ?r" for p
      using that idem fixed unfolding s
      by (auto simp: declared_valid_def scanned_valid_def declared_path_def)
    then show ?thesis by metis
  qed
  show ?thesis using s parse_saved_files_distinct v c by blast
qed

text \<open>
  A working directory with one declared and existing output, one declared and missing
  output, an empty statistics file and the input image.
\<close>

theorem parse_saved_files_union_witness:
  "parse_saved_files demo_fs [] ''/tmp/w'' ''a'' = [''/tmp/w/Images/a_mask.tif'', ''/tmp/w/a.png'']
   \<and> set (parse_saved_files demo_fs [] ''/tmp/w'' ''a'')
       = declared_valid demo_fs ''/tmp/w'' \<union> scanned_valid demo_fs ''/tmp/w'' ''a''
   \<and> path_exists demo_fs ''/tmp/w/a.png'' \<and> st_size demo_fs ''/tmp/w/a.png'' > 0"
proof -
  have e: "parse_saved_files demo_fs [] ''/tmp/w'' ''a''
             = [''/tmp/w/Images/a_mask.tif'', ''/tmp/w/a.png'']"
    by code_simp
  have h1: "\<forall>p. is_file demo_fs p \<longrightarrow> path_exists demo_fs p"
    by (simp add: demo_fs_def listing_fs_def)
  have h2: "\<forall>x. resolve demo_fs (resolve demo_fs x) = resolve demo_fs x"
    by (simp add: demo_fs_def listing_fs_def)
  have h3: "\<forall>p \<in> set (rglob demo_fs ''/tmp/w'' (''a'' @ ''*'')). resolve demo_fs p = p"
    by (simp add: demo_fs_def listing_fs_def)
  have m: "''/tmp/w/a.png'' \<in> set (parse_saved_files demo_fs [] ''/tmp/w'' ''a'')"
    unfolding e by simp
  from parse_saved_files_union[of demo_fs "[]" "''/tmp/w''" "''a''"] h1 h2 h3 m
  have "set (parse_saved_files demo_fs [] ''/tmp/w'' ''a'')
       = declared_valid demo_fs ''/tmp/w'' \<union> scanned_valid demo_fs ''/tmp/w'' ''a''
     \<and> path_exists demo_fs ''/tmp/w/a.png'' \<and> st_size demo_fs ''/tmp/w/a.png'' > 0"
    by blast
  with e show ?thesis by blast
qed

text \<open>
  C5. Below a linked directory the output declared in the log is recorded under its
  resolved path and once more under the path the scan yields: two entries for one file.
  The archive builder then fails on the resolved path, which is not below the working
  directory as the orchestrator names it, and the batch fails.
\<close>

theorem symlinked_output_listed_twice:
  "parse_saved_files symlink_fs [] ''/var/T/w'' ''a''
     = [''/private/var/T/w/a_out.csv'', ''/var/T/w/a.png'', ''/var/T/w/a_out.csv'']
   \<and> resolve symlink_fs ''/private/var/T/w/a_out.csv'' = ''/private/var/T/w/a_out.csv''
   \<and> resolve symlink_fs ''/var/T/w/a_out.csv'' = ''/private/var/T/w/a_out.csv''
   \<and> execute_image_macro True (\<lambda>n. n) ''/var/T/w'' symlink_fs symlink_fs
        [(upload ''a.png'' ''A'', quiet_job symlink_fs)]
     = Inl zip_failed"
  by code_simp

text \<open>The log text passed as \<open>output\<close> is not read: only the log file is.\<close>

lemma output_argument_unused:
  "parse_saved_files env output temp_dir stem = parse_saved_files env [] temp_dir stem"
  by (simp add: parse_saved_files_def)

subsection \<open>Building the archive (C7)\<close>

lemma add_members_step:
  "add_members env z (f # ps) seen ms =
     (if \<not> path_exists env (path_str env f) \<or> path_str env f \<in> set seen
      then add_members env z ps seen ms
      else case relative_to env (path_str env f) (parent env z) of
             None \<Rightarrow> Inl ms
           | Some a \<Rightarrow> add_members env z ps (set_add (path_str env f) seen)
                         (ms @ [(path_str env f, a)]))"
  by (simp add: Let_def)

lemma add_members_distinct:
  "set seen = fst ` set ms \<Longrightarrow> distinct (map fst ms) \<Longrightarrow>
   distinct (map fst (members_of (add_members env z ps seen ms)))"
proof (induction ps arbitrary: seen ms)
  case Nil
  then show ?case by (simp add: members_of_def)
next
  case (Cons f ps)
  show ?case
  proof (cases "\<not> path_exists env (path_str env f) \<or> path_str env f \<in> set seen")
    case True
    then show ?thesis using Cons by (simp only: add_members_step if_True)
  next
    case False
    show ?thesis
    proof (cases "relative_to env (path_str env f) (parent env z)")
      case None
      then show ?thesis using False Cons.prems
        by (simp only: add_members_step if_False option.case) (simp add: members_of_def)
    next
      case (Some a)
      have p1: "set (set_add (path_str env f) seen) = fst ` set (ms @ [(path_str env f, a)])"
        using Cons.prems(1) by simp
      have p2: "distinct (map fst (ms @ [(path_str env f, a)]))"
        using Cons.prems False by simp
      show ?thesis using False Some Cons.IH[OF p1 p2]
        by (simp only: add_members_step if_False option.case)
    qed
  qed
qed

lemma add_members_upper:
  "set seen = fst ` set ms \<Longrightarrow>
   fst ` set (members_of (add_members env z ps seen ms))
     \<subseteq> fst ` set ms \<union> {p \<in> path_str env ` set ps. path_exists env p}"
proof (induction ps arbitrary: seen ms)
  case Nil
  then show ?case by (simp add: members_of_def)
next
  case (Cons f ps)
  show ?case
  proof (cases "\<not> path_exists env (path_str env f) \<or> path_str env f \<in> set seen")
    case True
    have "fst ` set (members_of (add_members env z ps seen ms))
            \<subseteq> fst ` set ms \<union> {p \<in> path_str env ` set ps. path_exists env p}"
      by (rule Cons.IH[OF Cons.prems])
    also have "\<dots> \<subseteq> fst ` set ms \<union> {p \<in> path_str env ` set (f # ps). path_exists env p}"
      by auto
    finally show ?thesis using True by (simp only: add_members_step if_True)
  next
    case False
    show ?thesis
    proof (cases "relative_to env (path_str env f) (parent env z)")
      case None
      then show ?thesis using False
        by (simp only: add_members_step if_False option.case) (simp add: members_of_def)
    next
      case (Some a)
      have p1: "set (set_add (path_str env f) seen) = fst ` set (ms @ [(path_str env f, a)])"
        using Cons.prems(1) by simp
      have "fst ` set (members_of (add_members env z ps (set_add (path_str env f) seen)
                (ms @ [(path_str env f, a)])))
            \<subseteq> fst ` set (ms @ [(path_str env f, a)])
               \<union> {p \<in> path_str env ` set ps. path_exists env p}"
        by (rule Cons.IH[OF p1])
      also have "\<dots> \<subseteq> fst ` set ms \<union> {p \<in> path_str env ` set (f # ps). path_exists env p}"
        using False by auto
      finally show ?thesis using False Some
        by (simp only: add_members_step if_False option.case)
    qed
  qed
qed

lemma add_members_complete:
  "set seen = fst ` set ms \<Longrightarrow> add_members env z ps seen ms = Inr m \<Longrightarrow>
   fst ` set ms \<union> {p \<in> path_str env ` set ps. path_exists env p} \<subseteq> fst ` set m"
proof (induction ps arbitrary: seen ms)
  case Nil
  then show ?case by simp
next
  case (Cons f ps)
  show ?case
  proof (cases "\<not> path_exists env (path_str env f) \<or> path_str env f \<in> set seen")
    case True
    with Cons.prems(2) have r: "add_members env z ps seen ms = Inr m"
      by (simp only: add_members_step if_True)
    have "fst ` set ms \<union> {p \<in> path_str env ` set ps. path_exists env p} \<subseteq> fst ` set m"
      by (rule Cons.IH[OF Cons.prems(1) r])
    moreover have "path_exists env (path_str env f) \<Longrightarrow> path_str env f \<in> fst ` set ms"
      using True Cons.prems(1) by auto
    ultimately show ?thesis by auto
  next
    case False
    show ?thesis
    proof (cases "relative_to env (path_str env f) (parent env z)")
      case None
      then show ?thesis using False Cons.prems(2)
        by (simp only: add_members_step if_False option.case) simp
    next
      case (Some a)
      have p1: "set (set_add (path_str env f) seen) = fst ` set (ms @ [(path_str env f, a)])"
        using Cons.prems(1) by simp
      from False Some Cons.prems(2)
      have r: "add_members env z ps (set_add (path_str env f) seen)
                 (ms @ [(path_str env f, a)]) = Inr m"
        by (simp only: add_members_step if_False option.case)
      have "fst ` set (ms @ [(path_str env f, a)])
              \<union> {p \<in> path_str env ` set ps. path_exists env p} \<subseteq> fst ` set m"
        by (rule Cons.IH[OF p1 r])
      then show ?thesis by auto
    qed
  qed
qed

lemma create_zip_file_empty: "create_zip_file env env' [] zip_filename = (None, [])"
  by (simp add: create_zip_file_def)

lemma create_zip_file_open_fails:
  "zip_open env (path_str env zip_filename) = Some e \<Longrightarrow>
   create_zip_file env env' file_paths zip_filename = (None, [])"
  by (simp add: create_zip_file_def Let_def)

lemma create_zip_file_aborted:
  "file_paths \<noteq> [] \<Longrightarrow> zip_open env (path_str env zip_filename) = None \<Longrightarrow>
   add_members env (path_str env zip_filename) file_paths [] [] = Inl m \<Longrightarrow>
   create_zip_file env env' file_paths zip_filename = (None, m)"
  by (simp add: create_zip_file_def Let_def)

lemma create_zip_file_written:
  "file_paths \<noteq> [] \<Longrightarrow> zip_open env (path_str env zip_filename) = None \<Longrightarrow>
   add_members env (path_str env zip_filename) file_paths [] [] = Inr m \<Longrightarrow>
   create_zip_file env env' file_paths zip_filename =
     (if path_exists env' (path_str env zip_filename)
      then Some (path_str env zip_filename) else None, m)"
  by (simp add: create_zip_file_def Let_def)

lemma create_zip_file_shape:
  "create_zip_file env env' file_paths zip_filename = (None, [])
   \<or> (\<exists>m. file_paths \<noteq> []
          \<and> add_members env (path_str env zip_filename) file_paths [] [] = Inl m
          \<and> create_zip_file env env' file_paths zip_filename = (None, m))
   \<or> (\<exists>m. file_paths \<noteq> []
          \<and> add_members env (path_str env zip_filename) file_paths [] [] = Inr m
          \<and> create_zip_file env env' file_paths zip_filename =
              (if path_exists env' (path_str env zip_filename)
               then Some (path_str env zip_filename) else None, m))"
proof (cases "file_paths = []")
  case True
  then show ?thesis by (simp add: create_zip_file_empty)
next
  case ne: False
  show ?thesis
  proof (cases "zip_open env (path_str env zip_filename)")
    case (Some e)
    then show ?thesis by (simp add: create_zip_file_open_fails)
  next
    case None
    show ?thesis
    proof (cases "add_members env (path_str env zip_filename) file_paths [] []")
      case (Inl m)
      with create_zip_file_aborted[OF ne None Inl] ne show ?thesis by blast
    next
      case (Inr m)
      with create_zip_file_written[OF ne None Inr] ne show ?thesis by blast
    qed
  qed
qed

lemma create_zip_file_members:
  "distinct (map fst (snd (create_zip_file env env' file_paths zip_filename)))
   \<and> fst ` set (snd (create_zip_file env env' file_paths zip_filename))
        \<subseteq> {p \<in> path_str env ` set file_paths. path_exists env p}"
proof -
  define z where "z = path_str env zip_filename"
  define r where "r = create_zip_file env env' file_paths zip_filename"
  define am where "am = add_members env z file_paths [] []"
  define valid where "valid = {p \<in> path_str env ` set file_paths. path_exists env p}"
  have inv1: "distinct (map fst (members_of am))"
    unfolding am_def using add_members_distinct[of "[]" "[]" env z file_paths] by simp
  have inv2: "fst ` set (members_of am) \<subseteq> valid"
    unfolding am_def valid_def using add_members_upper[of "[]" "[]" env z file_paths] by simp
  from create_zip_file_shape[of env env' file_paths zip_filename]
  consider "snd r = []" | m where "am = Inl m" "snd r = m" | m where "am = Inr m" "snd r = m"
    unfolding r_def am_def z_def by fastforce
  then have "distinct (map fst (snd r)) \<and> fst ` set (snd r) \<subseteq> valid"
  proof cases
    case 1
    then show ?thesis by simp
  next
    case 2
    with inv1 inv2 show ?thesis by (simp add: members_of_def)
  next
    case 3
    with inv1 inv2 show ?thesis by (simp add: members_of_def)
  qed
  then show ?thesis unfolding r_def valid_def .
qed

lemma create_zip_file_success:
  assumes "fst (create_zip_file env env' file_paths zip_filename) = Some a"
  shows "file_paths \<noteq> []" "a = path_str env zip_filename" "path_exists env' a"
    "fst ` set (snd (create_zip_file env env' file_paths zip_filename))
       = {p \<in> path_str env ` set file_paths. path_exists env p}"
proof -
  define z where "z = path_str env zip_filename"
  define r where "r = create_zip_file env env' file_paths zip_filename"
  define am where "am = add_members env z file_paths [] []"
  define valid where "valid = {p \<in> path_str env ` set file_paths. path_exists env p}"
  have a: "fst r = Some a" using assms by (simp add: r_def)
  from create_zip_file_shape[of env env' file_paths zip_filename]
  consider "r = (None, [])" | m where "r = (None, m)"
    | m where "file_paths \<noteq> []" "am = Inr m"
        "r = (if path_exists env' z then Some z else None, m)"
    unfolding r_def am_def z_def by blast
  then have "file_paths \<noteq> [] \<and> a = z \<and> path_exists env' a \<and> fst ` set (snd r) = valid"
  proof cases
    case 1
    with a show ?thesis by simp
  next
    case 2
    with a show ?thesis by simp
  next
    case 3
    have up: "fst ` set (members_of am) \<subseteq> valid"
      unfolding am_def valid_def using add_members_upper[of "[]" "[]" env z file_paths] by simp
    have lo: "valid \<subseteq> fst ` set m"
      unfolding valid_def
      using add_members_complete[of "[]" "[]" env z file_paths m] 3(2) by (simp add: am_def)
    from up 3(2) have "fst ` set m \<subseteq> valid" by (simp add: members_of_def)
    with lo have eq: "fst ` set m = valid" by blast
    from a 3(3) have "path_exists env' z \<and> a = z" by (auto split: if_splits)
    with 3(1) 3(3) eq show ?thesis by simp
  qed
  then show "file_paths \<noteq> []" "a = path_str env zip_filename" "path_exists env' a"
    "fst ` set (snd (create_zip_file env env' file_paths zip_filename))
       = {p \<in> path_str env ` set file_paths. path_exists env p}"
    unfolding r_def valid_def z_def by blast+
qed

text \<open>
  What holds of every call: an empty list gives no archive; a returned path is the
  archive's path and the archive exists once it is closed, and when it does not exist
  then, nothing is returned; the members are listed paths that exist, no path string
  twice, and they are all of these paths when a path is returned.
\<close>

theorem create_zip_file_spec:
  "create_zip_file env env' [] zip_filename = (None, [])
   \<and> (\<forall>a. fst (create_zip_file env env' file_paths zip_filename) = Some a \<longrightarrow>
          file_paths \<noteq> [] \<and> a = path_str env zip_filename \<and> path_exists env' a)
   \<and> (\<not> path_exists env' (path_str env zip_filename) \<longrightarrow>
          fst (create_zip_file env env' file_paths zip_filename) = None)
   \<and> distinct (map fst (snd (create_zip_file env env' file_paths zip_filename)))
   \<and> (\<forall>p \<in> fst ` set (snd (create_zip_file env env' file_paths zip_filename)).
          path_exists env p \<and> p \<in> path_str env ` set file_paths)
   \<and> (\<forall>a. fst (create_zip_file env env' file_paths zip_filename) = Some a \<longrightarrow>
          fst ` set (snd (create_zip_file env env' file_paths zip_filename))
            = {p \<in> path_str env ` set file_paths. path_exists env p})"
proof (intro conjI allI impI ballI)
  show "create_zip_file env env' [] zip_filename = (None, [])"
    by (rule create_zip_file_empty)
next
  fix a assume "fst (create_zip_file env env' file_paths zip_filename) = Some a"
  then show "file_paths \<noteq> []" "a = path_str env zip_filename" "path_exists env' a"
    by (rule create_zip_file_success)+
next
  assume n: "\<not> path_exists env' (path_str env zip_filename)"
  show "fst (create_zip_file env env' file_paths zip_filename) = None"
  proof (cases "fst (create_zip_file env env' file_paths zip_filename)")
    case None
    then show ?thesis .
  next
    case (Some a)
    from create_zip_file_success(2,3)[OF Some] n show ?thesis by simp
  qed
next
  show "distinct (map fst (snd (create_zip_file env env' file_paths zip_filename)))"
    using create_zip_file_members by blast
next
  fix p assume "p \<in> fst ` set (snd (create_zip_file env env' file_paths zip_filename))"
  with create_zip_file_members[of env env' file_paths zip_filename]
  have "p \<in> {p \<in> path_str env ` set file_paths. path_exists env p}" by blast
  then show "path_exists env p" "p \<in> path_str env ` set file_paths" by simp_all
next
  fix a assume "fst (create_zip_file env env' file_paths zip_filename) = Some a"
  then show "fst ` set (snd (create_zip_file env env' file_paths zip_filename))
            = {p \<in> path_str env ` set file_paths. path_exists env p}"
    by (rule create_zip_file_success(4))
qed

text \<open>A list with a missing path and a repeated one.\<close>

theorem create_zip_file_spec_witness:
  "create_zip_file demo_fs demo_fs'
     [''/tmp/w/a.png'', ''/tmp/w/gone.csv'', ''/tmp/w/a.png'', ''/tmp/w/Images/a_mask.tif'']
     ''/tmp/w/results.zip''
     = (Some ''/tmp/w/results.zip'',
        [(''/tmp/w/a.png'', ''a.png''), (''/tmp/w/Images/a_mask.tif'', ''Images/a_mask.tif'')])
   \<and> path_exists demo_fs' ''/tmp/w/results.zip''
   \<and> create_zip_file demo_fs demo_fs' [] ''/tmp/w/results.zip'' = (None, [])"
proof -
  have e: "create_zip_file demo_fs demo_fs'
     [''/tmp/w/a.png'', ''/tmp/w/gone.csv'', ''/tmp/w/a.png'', ''/tmp/w/Images/a_mask.tif'']
     ''/tmp/w/results.zip''
     = (Some ''/tmp/w/results.zip'',
        [(''/tmp/w/a.png'', ''a.png''), (''/tmp/w/Images/a_mask.tif'', ''Images/a_mask.tif'')])"
    by code_simp
  then have s: "fst (create_zip_file demo_fs demo_fs'
     [''/tmp/w/a.png'', ''/tmp/w/gone.csv'', ''/tmp/w/a.png'', ''/tmp/w/Images/a_mask.tif'']
     ''/tmp/w/results.zip'') = Some ''/tmp/w/results.zip''" by simp
  from create_zip_file_spec[of demo_fs demo_fs' "''/tmp/w/results.zip''"
      "[''/tmp/w/a.png'', ''/tmp/w/gone.csv'', ''/tmp/w/a.png'', ''/tmp/w/Images/a_mask.tif'']"] s
  have "path_exists demo_fs' ''/tmp/w/results.zip''
        \<and> create_zip_file demo_fs demo_fs' [] ''/tmp/w/results.zip'' = (None, [])"
    by blast
  with e show ?thesis by blast
qed

text \<open>
  C7. A non-empty list whose only path is missing: every entry is skipped and the
  archive, which has no member, is returned as a success. A list that names one file
  under two spellings: both are added.
\<close>

theorem all_missing_gives_empty_archive:
  "create_zip_file demo_fs demo_fs' [''/tmp/w/gone.csv''] ''/tmp/w/results.zip''
     = (Some ''/tmp/w/results.zip'', [])
   \<and> create_zip_file alias_fs alias_fs [''/tmp/w/a.png'', ''/tmp/w/Images/../a.png'']
        ''/tmp/w/results.zip''
     = (Some ''/tmp/w/results.zip'',
        [(''/tmp/w/a.png'', ''a.png''), (''/tmp/w/Images/../a.png'', ''Images/../a.png'')])
   \<and> resolve alias_fs ''/tmp/w/Images/../a.png'' = resolve alias_fs ''/tmp/w/a.png''"
  by code_simp

subsection \<open>The batch orchestrator (C1, C2, C9)\<close>

text \<open>
  When persisting never raises, the loop reaches its end whatever the rendering, the
  engine and the collector do.
\<close>

lemma process_files_isolates:
  "(\<forall>fw \<in> set files. save_error (snd fw) = None) \<Longrightarrow>
   \<exists>logs outs. process_files sf td files error_logs output_files = Inr (logs, outs)"
proof (induction files arbitrary: error_logs output_files)
  case Nil
  then show ?case by simp
next
  case (Cons fw files)
  obtain f w where fw: "fw = (f, w)" by (cases fw)
  with Cons.prems have s: "save_error w = None" by simp
  from Cons.prems have rest: "\<forall>fw \<in> set files. save_error (snd fw) = None" by simp
  show ?case
  proof (cases "run_job w td (fst (splitext (sf (filename f))))")
    case (Inl e)
    with s fw Cons.IH[OF rest] show ?thesis by (simp add: Let_def)
  next
    case (Inr saved)
    with s fw Cons.IH[OF rest] show ?thesis by (simp add: Let_def)
  qed
qed

text \<open>
  C2, as the code has it. After the loop: without outputs the batch fails with the
  "no outputs" failure, whatever the error log holds; with outputs the archive is built
  once from all of them, and its path is returned with the error log when it was created
  and exists; otherwise the batch fails with the "zip failed" failure, different from the
  first. A returned archive holds exactly the existing output paths.
\<close>

theorem execute_image_macro_aggregation:
  assumes "process_files sf td files [] [] = Inr (error_logs, output_files)"
  shows "execute_image_macro True sf td env env' files =
           (if output_files = [] then Inl no_outputs
            else case fst (create_zip_file env env' output_files (path_join td ''results.zip'')) of
                   Some z \<Rightarrow> if z \<noteq> [] \<and> path_exists env' z
                             then Inr (z, error_logs) else Inl zip_failed
                 | None \<Rightarrow> Inl zip_failed)
         \<and> no_outputs \<noteq> zip_failed
         \<and> (\<forall>z l. execute_image_macro True sf td env env' files = Inr (z, l) \<longrightarrow>
               output_files \<noteq> [] \<and> l = error_logs
               \<and> z = path_str env (path_join td ''results.zip'') \<and> path_exists env' z
               \<and> fst ` set (snd (create_zip_file env env' output_files
                                    (path_join td ''results.zip'')))
                   = {p \<in> path_str env ` set output_files. path_exists env p})"
proof -
  define zr where "zr = create_zip_file env env' output_files (path_join td ''results.zip'')"
  have e: "execute_image_macro True sf td env env' files =
           (if output_files = [] then Inl no_outputs
            else case fst zr of
                   Some z \<Rightarrow> if z \<noteq> [] \<and> path_exists env' z
                             then Inr (z, error_logs) else Inl zip_failed
                 | None \<Rightarrow> Inl zip_failed)"
    using assms by (simp add: execute_image_macro_def Let_def zr_def)
  have d: "no_outputs \<noteq> zip_failed" by (simp add: no_outputs_def zip_failed_def)
  have s: "output_files \<noteq> [] \<and> l = error_logs
           \<and> z = path_str env (path_join td ''results.zip'') \<and> path_exists env' z
           \<and> fst ` set (snd zr) = {p \<in> path_str env ` set output_files. path_exists env p}"
    if r: "execute_image_macro True sf td env env' files = Inr (z, l)" for z l
  proof -
    from r e have ne: "output_files \<noteq> []" by (auto split: if_splits)
    with r e obtain z' where z': "fst zr = Some z'"
      by (cases "fst zr") auto
    with r e ne have zl: "z = z'" "l = error_logs" "path_exists env' z"
      by (auto split: if_splits)
    from create_zip_file_success(2,4)[OF z'[unfolded zr_def]] zl ne show ?thesis
      by (simp add: zr_def)
  qed
  show ?thesis using e d s unfolding zr_def by blast
qed

text \<open>A batch of one image with one output.\<close>

theorem execute_image_macro_aggregation_witness:
  "execute_image_macro True (\<lambda>n. n) ''/tmp/w'' demo_fs demo_fs'
     [(upload ''a.png'' ''A'', quiet_job demo_fs)]
   = Inr (''/tmp/w/results.zip'', [])
   \<and> path_exists demo_fs' ''/tmp/w/results.zip''"
proof -
  have p: "process_files (\<lambda>n. n) ''/tmp/w'' [(upload ''a.png'' ''A'', quiet_job demo_fs)] [] []
           = Inr ([], [''/tmp/w/Images/a_mask.tif'', ''/tmp/w/a.png''])"
    by code_simp
  have r: "execute_image_macro True (\<lambda>n. n) ''/tmp/w'' demo_fs demo_fs'
     [(upload ''a.png'' ''A'', quiet_job demo_fs)] = Inr (''/tmp/w/results.zip'', [])"
    by code_simp
  from execute_image_macro_aggregation[OF p, of demo_fs demo_fs'] r
  have "path_exists demo_fs' ''/tmp/w/results.zip''" by blast
  with r show ?thesis by blast
qed

text \<open>
  The log declares an output outside the working directory: the outputs are not empty,
  yet no archive path is returned.
\<close>

theorem execute_image_macro_counterexample:
  "process_files (\<lambda>n. n) ''/tmp/w'' [(upload ''a.png'' ''A'', quiet_job outside_fs)] [] []
     = Inr ([], [''/data/a_out.csv'', ''/tmp/w/a.png''])
   \<and> execute_image_macro True (\<lambda>n. n) ''/tmp/w'' outside_fs outside_fs
        [(upload ''a.png'' ''A'', quiet_job outside_fs)]
     = Inl zip_failed"
  by code_simp

text \<open>
  C1. Three files; persisting the second raises. The exception leaves the loop: no
  archive, no error log, and the third file is not processed.
\<close>

theorem save_failure_aborts_batch:
  "execute_image_macro True (\<lambda>n. n) ''/tmp/w'' batch_fs batch_fs save_fails_batch
     = Inl (Other_exception ''No space left on device'')"
  by code_simp

text \<open>
  The same three files when the engine raises on the second: an archive of the outputs of
  the first and the third, and one log entry naming the second.
\<close>

lemma engine_failure_is_isolated:
  "execute_image_macro True (\<lambda>n. n) ''/tmp/w'' batch_fs batch_fs engine_fails_batch
     = Inr (''/tmp/w/results.zip'', [''Error processing b.png: Macro Error''])
   \<and> snd (create_zip_file batch_fs batch_fs
            [''/tmp/w/a.png'', ''/tmp/w/Images/a_mask.tif'', ''/tmp/w/c.png'',
             ''/tmp/w/Images/c_mask.tif'']
            ''/tmp/w/results.zip'')
     = [(''/tmp/w/a.png'', ''a.png''), (''/tmp/w/Images/a_mask.tif'', ''Images/a_mask.tif''),
        (''/tmp/w/c.png'', ''c.png''), (''/tmp/w/Images/c_mask.tif'', ''Images/c_mask.tif'')]
   \<and> process_files (\<lambda>n. n) ''/tmp/w'' engine_fails_batch [] []
     = Inr ([''Error processing b.png: Macro Error''],
            [''/tmp/w/a.png'', ''/tmp/w/Images/a_mask.tif'', ''/tmp/w/c.png'',
             ''/tmp/w/Images/c_mask.tif''])"
  by code_simp

text \<open>
  C9. Two different uploads with the same file name get the same working path, whatever
  the sanitiser does.
\<close>

theorem same_name_same_path:
  "\<forall>secure_filename.
     upload ''a.png'' ''first'' \<noteq> upload ''a.png'' ''second''
     \<and> image_path secure_filename ''/tmp/w'' (upload ''a.png'' ''first'')
       = image_path secure_filename ''/tmp/w'' (upload ''a.png'' ''second'')"
  by (simp add: upload_def image_path_def)

text \<open>
  Sanitised names that differ and do not start with a separator give different paths:
  the path is as unique as the sanitised name.
\<close>

lemma path_join_inj:
  assumes "\<not> startswith a ''/''" "\<not> startswith b ''/''" "path_join d a = path_join d b"
  shows "a = b"
  using assms by (auto simp: path_join_def split: if_splits)

lemma different_names_different_paths:
  assumes "\<not> startswith (sf (filename f)) ''/''" "\<not> startswith (sf (filename g)) ''/''"
    and "sf (filename f) \<noteq> sf (filename g)"
  shows "image_path sf td f \<noteq> image_path sf td g"
  using assms path_join_inj[of "sf (filename f)" "sf (filename g)" td]
  by (auto simp: image_path_def)

subsection \<open>Waiting for a file (C6)\<close>

text \<open>
  C6. A file that exists and grows at every poll: no two consecutive sizes are equal, yet
  the wait ends without an error.
\<close>

theorem growing_file_accepted:
  "wait_for_file growing_file 120 = Some (Inr ())
   \<and> observed_sizes growing_file 10
     = [Some 1, Some 2, Some 3, Some 4, Some 5, Some 6, Some 7, Some 8, Some 9, Some 10]"
proof -
  have a: "await_exists growing_file 120 0 = Some True"
    by (subst await_exists.simps) (simp add: growing_file_def)
  have c: "check_size growing_file 10 0 0 = Exhausted 10"
    by (simp add: growing_file_def eval_nat_numeral)
  have o: "observed_sizes growing_file 10
     = [Some 1, Some 2, Some 3, Some 4, Some 5, Some 6, Some 7, Some 8, Some 9, Some 10]"
    by (simp add: observed_sizes_def growing_file_def upt_rec)
  show ?thesis using o by (simp add: wait_for_file_def a c)
qed

text \<open>
  A path that never appears gives the timeout error once the clock passes the timeout,
  and a file that stays empty gives the error for an empty file.
\<close>

lemma await_exists_times_out:
  "(\<forall>k. \<not> exists_at env k) \<Longrightarrow> timeout < elapsed_at env (k + d) \<Longrightarrow>
   await_exists env timeout k = Some False"
proof (induction d arbitrary: k)
  case 0
  then show ?case by (subst await_exists.simps) simp
next
  case (Suc d)
  from Suc.prems have "timeout < elapsed_at env (Suc k + d)" by simp
  with Suc.IH[OF Suc.prems(1)] have "await_exists env timeout (Suc k) = Some False" by blast
  with Suc.prems(1) show ?case by (subst await_exists.simps) simp
qed

lemma never_appears_times_out:
  "(\<forall>k. \<not> exists_at env k) \<Longrightarrow> timeout < elapsed_at env n \<Longrightarrow>
   wait_for_file env timeout = Some (Inl Timeout_error)"
  using await_exists_times_out[of env timeout 0 n] by (simp add: wait_for_file_def)

lemma check_size_stays_empty:
  "(\<forall>j. getsize_at env j = Some 0) \<Longrightarrow> check_size env n k 0 = Exhausted 0"
  by (induction n arbitrary: k) simp_all

lemma stays_empty_value_error:
  "exists_at env 0 \<Longrightarrow> (\<forall>j. getsize_at env j = Some 0) \<Longrightarrow>
   wait_for_file env timeout = Some (Inl Value_error)"
proof -
  assume a: "exists_at env 0" and b: "\<forall>j. getsize_at env j = Some 0"
  have "await_exists env timeout 0 = Some True"
    using a by (subst await_exists.simps) simp
  then show ?thesis using check_size_stays_empty[OF b, of 10 0] by (simp add: wait_for_file_def)
qed

end
